theory Spec2Isabelle
  imports Complex_Main "HOL-Library.Word"
begin

section \<open>The defensive CAN gateway of \<^verbatim>\<open>src/can_fd_defense_fair_gateway.py\<close>\<close>

text \<open>
  The development embeds the admission logic of \<^verbatim>\<open>defensive_gateway\<close>: the per-identifier
  policy lookup, the one-second sliding window of arrival times, the rate check, the
  fixed-layout decode of the engine payload and the plausibility check.

  Modelling decisions, all of them visible in the definitions below:
  \<^item> Python integers are \<open>int\<close>; a payload is a list of bytes (\<open>8 word\<close>);
  \<^item> \<^verbatim>\<open>time.time()\<close> is an input of every loop iteration. A Python float is an IEEE
    754 binary64 number; an arrival time is carried as the \<open>real\<close> value of a finite one,
    and \<^verbatim>\<open>now - ts < 1.0\<close> is the binary64 subtraction, rounded to nearest with ties to
    even, followed by the comparison with the literal \<^verbatim>\<open>1.0\<close>;
  \<^item> the module-level dictionary \<^verbatim>\<open>PER_ID_POLICY\<close> and the local dictionary
    \<^verbatim>\<open>id_timestamps\<close> form the state that one loop iteration receives and returns;
  \<^item> an exception is a value \<open>Inl e\<close>; the only raising operation of the loop body is
    \<^verbatim>\<open>struct.unpack\<close>;
  \<^item> console output is not modelled, except that the decision of an iteration records
    which of the five \<^verbatim>\<open>->\<close> lines the iteration prints, with the values that
    line shows.
\<close>

subsection \<open>Constants and the policy table\<close>

type_synonym byte = "8 word"

datatype py_error = StructError

definition LEGIT_ID :: int where
  "LEGIT_ID = 0x200"

definition FLOOD_ID :: int where
  "FLOOD_ID = 0x001"

record policy =
  max_rate :: int
  label :: string
  trusted :: bool

text \<open>
  A Python dictionary with integer keys, as an association list in insertion order. The
  table is the literal of the module, with its two entries.
\<close>

type_synonym policy_table = "(int \<times> policy) list"

definition PER_ID_POLICY :: policy_table where
  "PER_ID_POLICY =
     [(LEGIT_ID, \<lparr>max_rate = 50, label = ''LEGIT_ENGINE'', trusted = True\<rparr>),
      (FLOOD_ID, \<lparr>max_rate = 10, label = ''UNTRUSTED_FLOOD'', trusted = False\<rparr>)]"

definition DEFAULT_MAX_RATE :: int where
  "DEFAULT_MAX_RATE = 15"

subsection \<open>Payload decoding and the plausibility check\<close>

text \<open>
  \<^verbatim>\<open>struct.unpack("<HBB", b)\<close>: exactly four bytes, a little-endian unsigned 16-bit
  value followed by two unsigned bytes; any other length raises \<^verbatim>\<open>struct.error\<close>.
\<close>

fun unpack_HBB :: "byte list \<Rightarrow> py_error + (int \<times> int \<times> int)" where
  "unpack_HBB [b0, b1, b2, b3] = Inr (uint b0 + 256 * uint b1, uint b2, uint b3)"
| "unpack_HBB bs = Inl StructError"

definition engine_payload_is_plausible :: "int \<Rightarrow> int \<Rightarrow> int \<Rightarrow> bool" where
  "engine_payload_is_plausible rpm temp fuel =
     (if \<not> (0 \<le> rpm \<and> rpm \<le> 8000) then False
      else if \<not> (- 40 \<le> temp \<and> temp \<le> 150) then False
      else if \<not> (0 \<le> fuel \<and> fuel \<le> 100) then False
      else True)"

subsection \<open>Python floats\<close>

text \<open>
  The result of an operation on finite binary64 numbers is a finite number or an
  infinity. \<open>round_binary64\<close> rounds an exact real result to binary64: the quantum is
  the power of two that leaves 53 significant bits in the binade of the value, and never
  less than the subnormal quantum \<^verbatim>\<open>2^-1074\<close>; the value is rounded to the nearest
  multiple of the quantum, a tie going to the even multiple; a result of magnitude
  \<^verbatim>\<open>2^1024\<close> or more is an infinity. (Subtracting finite numbers never gives a NaN.)
\<close>

datatype float64 = Finite real | PlusInfinity | MinusInfinity

definition round_half_even :: "real \<Rightarrow> int" where
  "round_half_even y =
     (let n = \<lfloor>y\<rfloor>; f = y - of_int n
      in if f < 1 / 2 then n else if 1 / 2 < f then n + 1 else if even n then n else n + 1)"

definition round_binary64 :: "real \<Rightarrow> float64" where
  "round_binary64 x =
     (if x = 0 then Finite 0
      else let e = max (\<lfloor>log 2 \<bar>x\<bar>\<rfloor> - 52) (- 1074);
               r = of_int (round_half_even (x / 2 powr of_int e)) * 2 powr of_int e
           in if 2 ^ 1024 \<le> r then PlusInfinity
              else if r \<le> - (2 ^ 1024) then MinusInfinity
              else Finite r)"

text \<open>A real number is a finite binary64 number when rounding leaves it as it is.\<close>

definition is_binary64 :: "real \<Rightarrow> bool" where
  "is_binary64 x \<longleftrightarrow> round_binary64 x = Finite x"

text \<open>\<^verbatim>\<open>a - b\<close> on finite floats, and \<^verbatim>\<open>x < y\<close> for a float literal \<open>y\<close>.\<close>

definition float_sub :: "real \<Rightarrow> real \<Rightarrow> float64" where
  "float_sub a b = round_binary64 (a - b)"

fun float_less :: "float64 \<Rightarrow> real \<Rightarrow> bool" where
  "float_less (Finite r) y = (r < y)"
| "float_less PlusInfinity y = False"
| "float_less MinusInfinity y = True"

text \<open>The test \<^verbatim>\<open>now - ts < 1.0\<close> of the list comprehension.\<close>

definition in_window :: "real \<Rightarrow> real \<Rightarrow> bool" where
  "in_window now ts = float_less (float_sub now ts) 1"

subsection \<open>One iteration of the gateway loop\<close>

record can_msg =
  arbitration_id :: int
  data :: "byte list"

record gateway_state =
  per_id_policy :: policy_table
  id_timestamps :: "int \<rightharpoonup> real list"

definition init_state :: gateway_state where
  "init_state = \<lparr>per_id_policy = PER_ID_POLICY, id_timestamps = Map.empty\<rparr>"

text \<open>The \<^verbatim>\<open>->\<close> line an iteration prints, and the outcome it stands for.\<close>

datatype log_line =
    BLOCKED_rate_limit string
  | BLOCKED_implausible
  | FORWARDED_LEGIT_ENGINE int int int
  | FORWARDED_flood
  | FORWARDED_other

datatype outcome = Forwarded | BlockedRateLimit | BlockedSemanticCheck

fun outcome_of :: "log_line \<Rightarrow> outcome" where
  "outcome_of (BLOCKED_rate_limit l) = BlockedRateLimit"
| "outcome_of BLOCKED_implausible = BlockedSemanticCheck"
| "outcome_of (FORWARDED_LEGIT_ENGINE rpm temp fuel) = Forwarded"
| "outcome_of FORWARDED_flood = Forwarded"
| "outcome_of FORWARDED_other = Forwarded"

text \<open>
  What one iteration decides: the line printed, the rate it counted, the policy it
  applied, and the value \<^verbatim>\<open>engine_payload_is_plausible\<close> returned when it was called
  (\<open>None\<close> when the iteration never called it).
\<close>

record decision =
  line :: log_line
  observed_rate :: nat
  policy_used :: policy
  plausibility :: "bool option"

text \<open>
  \<^verbatim>\<open>PER_ID_POLICY.get(msg_id, {"max_rate": DEFAULT_MAX_RATE, "label": "UNKNOWN_ID",
  "trusted": False})\<close>
\<close>

definition lookup_policy :: "policy_table \<Rightarrow> int \<Rightarrow> policy" where
  "lookup_policy tbl msg_id =
     (case map_of tbl msg_id of
        Some p \<Rightarrow> p
      | None \<Rightarrow> \<lparr>max_rate = DEFAULT_MAX_RATE, label = ''UNKNOWN_ID'', trusted = False\<rparr>)"

text \<open>
  The sliding window of the loop body: read the identifier's list (empty when the
  identifier is new), keep the entries with \<^verbatim>\<open>now - ts < 1.0\<close>, append \<^verbatim>\<open>now\<close>, store
  the list back, and count it. Both versions of the gateway in the repository have
  this code, with the window length written as the constant \<^verbatim>\<open>1.0\<close>.
\<close>

definition record_and_count ::
    "int \<Rightarrow> real \<Rightarrow> (int \<rightharpoonup> real list) \<Rightarrow> nat \<times> (int \<rightharpoonup> real list)" where
  "record_and_count msg_id now ts_map =
     (let ts_list = (case ts_map msg_id of Some l \<Rightarrow> l | None \<Rightarrow> []);
          ts_list = filter (\<lambda>ts. in_window now ts) ts_list;
          ts_list = ts_list @ [now]
      in (length ts_list, ts_map(msg_id \<mapsto> ts_list)))"

definition gateway_body ::
    "real \<Rightarrow> can_msg \<Rightarrow> gateway_state \<Rightarrow> py_error + (decision \<times> gateway_state)" where
  "gateway_body now msg s =
     (let msg_id = arbitration_id msg;
          dat = data msg;
          pol = lookup_policy (per_id_policy s) msg_id;
          (rate, ts_map) = record_and_count msg_id now (id_timestamps s);
          s' = s\<lparr>id_timestamps := ts_map\<rparr>
      in if int rate > max_rate pol then
           Inr (\<lparr>line = BLOCKED_rate_limit (label pol), observed_rate = rate,
                  policy_used = pol, plausibility = None\<rparr>, s')
         else if msg_id = LEGIT_ID \<and> length dat \<ge> 4 then
           (case unpack_HBB (take 4 dat) of
              Inl e \<Rightarrow> Inl e
            | Inr (rpm, temp, fuel) \<Rightarrow>
                (let ok = engine_payload_is_plausible rpm temp fuel
                 in if \<not> ok then
                      Inr (\<lparr>line = BLOCKED_implausible, observed_rate = rate,
                             policy_used = pol, plausibility = Some ok\<rparr>, s')
                    else
                      Inr (\<lparr>line = FORWARDED_LEGIT_ENGINE rpm temp fuel, observed_rate = rate,
                             policy_used = pol, plausibility = Some ok\<rparr>, s')))
         else if msg_id = FLOOD_ID then
           Inr (\<lparr>line = FORWARDED_flood, observed_rate = rate,
                  policy_used = pol, plausibility = None\<rparr>, s')
         else
           Inr (\<lparr>line = FORWARDED_other, observed_rate = rate,
                  policy_used = pol, plausibility = None\<rparr>, s'))"

text \<open>
  The loop, over the messages that \<^verbatim>\<open>bus.recv\<close> returned during the five seconds it
  runs (an iteration whose receive times out is skipped), each paired with the clock
  value read for it. It collects the decisions; an exception ends it.
\<close>

fun defensive_gateway ::
    "(real \<times> can_msg) list \<Rightarrow> gateway_state \<Rightarrow> py_error + (decision list \<times> gateway_state)" where
  "defensive_gateway [] s = Inr ([], s)"
| "defensive_gateway ((now, msg) # rx) s =
     (case gateway_body now msg s of
        Inl e \<Rightarrow> Inl e
      | Inr (d, s') \<Rightarrow>
          (case defensive_gateway rx s' of
             Inl e \<Rightarrow> Inl e
           | Inr (ds, s'') \<Rightarrow> Inr (d # ds, s'')))"

text \<open>The arrival times of one identifier among the messages received, oldest first.\<close>

definition arrivals :: "int \<Rightarrow> (real \<times> can_msg) list \<Rightarrow> real list" where
  "arrivals i rx = map fst (filter (\<lambda>(t, m). arbitration_id m = i) rx)"

text \<open>
  Vocabulary of the window proofs: the list stored for an identifier (empty when the
  identifier has no entry), and what the loop keeps of an identifier's arrival times,
  namely those less than one second older than the latest one.
\<close>

definition stored :: "(int \<rightharpoonup> real list) \<Rightarrow> int \<Rightarrow> real list" where
  "stored tm i = (case tm i of Some l \<Rightarrow> l | None \<Rightarrow> [])"

definition recent :: "real list \<Rightarrow> real list" where
  "recent ts = (if ts = [] then [] else filter (\<lambda>u. in_window (last ts) u) ts)"

subsection \<open>The policy-table constructor of the specification\<close>



section \<open>Properties\<close>

subsection \<open>The window test in exact arithmetic\<close>

lemma round_half_even_le: "y \<le> of_int n \<Longrightarrow> round_half_even y \<le> n"
  unfolding round_half_even_def Let_def by (auto; linarith)

lemma round_half_even_ge: "of_int n \<le> y \<Longrightarrow> n \<le> round_half_even y"
  unfolding round_half_even_def Let_def by (auto; linarith)

lemma round_half_even_less_even:
  assumes "even n"
  shows "round_half_even y < n \<longleftrightarrow> y < of_int n - 1 / 2"
proof
  assume "y < of_int n - 1 / 2"
  then show "round_half_even y < n"
    unfolding round_half_even_def Let_def by (auto; linarith)
next
  assume lt: "round_half_even y < n"
  show "y < of_int n - 1 / 2"
  proof (rule ccontr)
    assume "\<not> y < of_int n - 1 / 2"
    then have ge: "of_int n - 1 / 2 \<le> y" by simp
    show False
    proof (cases "of_int n \<le> y")
      case True
      from round_half_even_ge [OF this] lt show False by simp
    next
      case False
      then have fl: "\<lfloor>y\<rfloor> = n - 1" using ge by linarith
      have odd: "odd (n - 1)" using assms by simp
      have "round_half_even y = n"
        unfolding round_half_even_def Let_def fl using ge odd by auto
      with lt show False by simp
    qed
  qed
qed

lemma floor_log2_bounds:
  assumes "0 < x"
  shows "2 powr of_int \<lfloor>log 2 x\<rfloor> \<le> x" and "x < 2 powr (of_int \<lfloor>log 2 x\<rfloor> + 1)"
proof -
  have x: "2 powr log 2 x = x" using assms by simp
  have "2 powr of_int \<lfloor>log 2 x\<rfloor> \<le> 2 powr log 2 x"
    by (rule powr_mono) simp_all
  then show "2 powr of_int \<lfloor>log 2 x\<rfloor> \<le> x" by (simp only: x)
  have "2 powr log 2 x < 2 powr (of_int \<lfloor>log 2 x\<rfloor> + 1)"
    by (rule powr_less_mono) simp_all
  then show "x < 2 powr (of_int \<lfloor>log 2 x\<rfloor> + 1)" by (simp only: x)
qed

lemma float_less_clamp:
  "float_less (if 2 ^ 1024 \<le> r then PlusInfinity
               else if r \<le> - (2 ^ 1024) then MinusInfinity else Finite r) 1 \<longleftrightarrow> r < 1"
proof -
  have "(1::real) \<le> 2 ^ 1024" by (rule one_le_power) simp
  then show ?thesis by auto
qed

lemma rounded_less_1_iff:
  "float_less (round_binary64 x) 1 \<longleftrightarrow> x < 1 - 1 / 2 ^ 54"
proof -
  define e where "e = max (\<lfloor>log 2 \<bar>x\<bar>\<rfloor> - 52) (- 1074)"
  define q :: real where "q = 2 powr of_int e"
  define r where "r = of_int (round_half_even (x / q)) * q"
  have q: "0 < q" by (simp add: q_def)
  have small: "(1::real) / 2 ^ 54 < 1 / 2" by simp
  consider "x = 0" | "x < 0" | "0 < x" "x < 1 / 2" | "1 / 2 \<le> x" "x < 1" | "1 \<le> x"
    by linarith
  then have "r < 1 \<longleftrightarrow> x < 1 - 1 / 2 ^ 54"
  proof cases
    case 1
    then show ?thesis by (simp add: r_def round_half_even_def)
  next
    case 2
    then have "x / q \<le> of_int 0" using q by (simp add: divide_le_0_iff)
    then have "round_half_even (x / q) \<le> 0" by (rule round_half_even_le)
    then have "r \<le> 0" using q by (simp add: r_def mult_le_0_iff)
    with 2 small show ?thesis by simp
  next
    case 3
    let ?k = "\<lfloor>log 2 x\<rfloor>"
    have "log 2 x < log 2 (1 / 2)" using 3 by (subst log_less_cancel_iff) simp_all
    then have "log 2 x < - 1" by (simp add: log_divide)
    then have k: "?k \<le> - 2" by linarith
    have ax: "\<bar>x\<bar> = x" using 3 by simp
    have e_le: "e \<le> - 54" unfolding e_def ax using k by linarith
    have e_ge: "?k - 52 \<le> e" unfolding e_def ax by linarith
    have "q \<le> 2 powr (- 54)"
      unfolding q_def using e_le by (intro powr_mono) simp_all
    then have q_le: "q \<le> 1 / 2 ^ 54" by (simp add: powr_neg_numeral)
    have "2 powr (of_int ?k - 52) \<le> q"
      unfolding q_def using e_ge by (intro powr_mono) simp_all
    moreover have "x < 2 powr (of_int ?k + 1)" using floor_log2_bounds(2) 3 by simp
    moreover have "(2::real) powr (of_int ?k + 1) = 2 ^ 53 * 2 powr (of_int ?k - 52)"
    proof -
      have "(2::real) powr (of_int ?k + 1) = 2 powr (53 + (of_int ?k - 52))"
        by (simp add: algebra_simps)
      also have "\<dots> = 2 powr 53 * 2 powr (of_int ?k - 52)" by (rule powr_add)
      finally show ?thesis by simp
    qed
    ultimately have "x < 2 ^ 53 * 2 powr (of_int ?k - 52)"
      and "2 ^ 53 * 2 powr (of_int ?k - 52) \<le> 2 ^ 53 * q"
      by simp_all
    then have "x \<le> 2 ^ 53 * q" by linarith
    then have "x / q \<le> of_int (2 ^ 53)" using q by (simp add: pos_divide_le_eq)
    then have "round_half_even (x / q) \<le> 2 ^ 53" by (rule round_half_even_le)
    then have "of_int (round_half_even (x / q)) \<le> (2 ^ 53 :: real)"
      by (metis of_int_le_iff of_int_numeral of_int_power)
    then have "r \<le> 2 ^ 53 * q" using q by (simp add: r_def)
    also have "\<dots> \<le> 2 ^ 53 * (1 / 2 ^ 54)" using q_le by (intro mult_left_mono) simp_all
    finally have "r \<le> 1 / 2" by simp
    with 3 small show ?thesis by simp
  next
    case 4
    have "log 2 (1 / 2) \<le> log 2 x" using 4 by (subst log_le_cancel_iff) simp_all
    then have lo: "- 1 \<le> log 2 x" by (simp add: log_divide)
    have "log 2 x < log 2 1" using 4 by (subst log_less_cancel_iff) simp_all
    then have hi: "log 2 x < 0" by simp
    have k: "\<lfloor>log 2 x\<rfloor> = - 1" using lo hi by linarith
    have ax: "\<bar>x\<bar> = x" using 4 by simp
    have e: "e = - 53" unfolding e_def ax k by simp
    have qv: "q = 1 / 2 ^ 53" by (simp add: q_def e powr_neg_numeral)
    have "r < 1 \<longleftrightarrow> of_int (round_half_even (x * 2 ^ 53)) < (2 ^ 53 :: real)"
      by (simp add: r_def qv pos_divide_less_eq)
    also have "\<dots> \<longleftrightarrow> round_half_even (x * 2 ^ 53) < 2 ^ 53"
      by (metis of_int_less_iff of_int_numeral of_int_power)
    also have "\<dots> \<longleftrightarrow> x * 2 ^ 53 < of_int (2 ^ 53) - 1 / 2"
      by (rule round_half_even_less_even) simp
    also have "\<dots> \<longleftrightarrow> x < 1 - 1 / 2 ^ 54" by (simp add: field_simps)
    finally show ?thesis .
  next
    case 5
    let ?k = "\<lfloor>log 2 x\<rfloor>"
    have "log 2 1 \<le> log 2 x" using 5 by (subst log_le_cancel_iff) simp_all
    then have k: "0 \<le> ?k" by simp
    have ax: "\<bar>x\<bar> = x" using 5 by simp
    have e: "e = ?k - 52" unfolding e_def ax using k by linarith
    have pk: "2 powr of_int ?k \<le> x" using floor_log2_bounds(1) 5 by simp
    have split: "(2::real) powr of_int ?k = 2 ^ 52 * q"
    proof -
      have "(2::real) powr of_int ?k = 2 powr (52 + (of_int ?k - 52))"
        by (simp add: algebra_simps)
      also have "\<dots> = 2 powr 52 * 2 powr (of_int ?k - 52)" by (rule powr_add)
      finally show ?thesis by (simp add: q_def e)
    qed
    have "of_int (2 ^ 52) \<le> x / q" using pk q by (simp add: split pos_le_divide_eq)
    then have "2 ^ 52 \<le> round_half_even (x / q)" by (rule round_half_even_ge)
    then have "(2 ^ 52 :: real) \<le> of_int (round_half_even (x / q))"
      by (metis of_int_le_iff of_int_numeral of_int_power)
    then have "2 ^ 52 * q \<le> r" using q by (simp add: r_def)
    moreover have "1 \<le> (2::real) powr of_int ?k"
      by (rule ge_one_powr_ge_zero) (use k in simp_all)
    ultimately have "1 \<le> r" by (simp add: split)
    with 5 show ?thesis by simp
  qed
  moreover have "float_less (round_binary64 x) 1 \<longleftrightarrow> r < 1" if "x \<noteq> 0"
    using that unfolding round_binary64_def Let_def r_def q_def e_def
    by (simp only: if_False float_less_clamp)
  moreover have "float_less (round_binary64 0) 1" by (simp add: round_binary64_def)
  ultimately show ?thesis by (cases "x = 0") simp_all
qed

text \<open>
  The float test \<^verbatim>\<open>now - ts < 1.0\<close> holds exactly when the exact age is below
  \<^verbatim>\<open>1 - 2^-54\<close>: an exact difference from there up to 1 rounds to \<^verbatim>\<open>1.0\<close>.
\<close>

lemma in_window_iff [code]: "in_window now ts \<longleftrightarrow> now - ts < 1 - 1 / 2 ^ 54"
  by (simp add: in_window_def float_sub_def rounded_less_1_iff)

lemma in_window_fun: "in_window now = (\<lambda>ts. now - ts < 1 - 1 / 2 ^ 54)"
  by (rule ext) (rule in_window_iff)

text \<open>
  The rounding at work: \<^verbatim>\<open>1.0\<close> and \<^verbatim>\<open>2^-60\<close> are binary64 numbers, and
  \<^verbatim>\<open>1.0 - 2^-60\<close> is \<^verbatim>\<open>1.0\<close>.
\<close>

lemma round_half_even_of_int: "round_half_even (of_int n) = n"
  by (simp add: round_half_even_def)

lemma is_binary64_one: "is_binary64 1"
proof -
  have e: "max (\<lfloor>log 2 \<bar>1::real\<bar>\<rfloor> - 52) (- 1074) = - 52" by simp
  have q: "(2::real) powr of_int (- 52) = 1 / 2 ^ 52" by (simp add: powr_neg_numeral)
  have y: "(1::real) / (1 / 2 ^ 52) = of_int (2 ^ 52)" by simp
  show ?thesis
    unfolding is_binary64_def round_binary64_def Let_def e q y round_half_even_of_int
    by simp
qed

lemma is_binary64_tiny: "is_binary64 (1 / 2 ^ 60)"
proof -
  define x :: real where "x = 1 / 2 ^ 60"
  have ax: "\<bar>x\<bar> = x" and nz: "x \<noteq> 0" by (simp_all add: x_def)
  have "x = 2 powr (- 60)" by (simp add: x_def powr_neg_numeral)
  moreover have "log 2 (2 powr (- 60)) = - 60" by (rule log_powr_cancel) simp_all
  ultimately have "log 2 x = - 60" by (simp only:)
  then have e: "max (\<lfloor>log 2 \<bar>x\<bar>\<rfloor> - 52) (- 1074) = - 112" unfolding ax by simp
  have q: "(2::real) powr of_int (- 112) = 1 / 2 ^ 112" by (simp add: powr_neg_numeral)
  have y: "x / (1 / 2 ^ 112) = of_int (2 ^ 52)" by (simp add: x_def)
  have "round_binary64 x = Finite x"
    unfolding round_binary64_def Let_def e q y round_half_even_of_int using nz
    by (simp add: x_def)
  then show ?thesis by (simp add: is_binary64_def x_def)
qed

lemma float_sub_one_tiny: "float_sub 1 (1 / 2 ^ 60) = Finite 1"
proof -
  define x :: real where "x = 1 - 1 / 2 ^ 60"
  have x: "1 / 2 \<le> x" "x < 1" by (simp_all add: x_def)
  then have ax: "\<bar>x\<bar> = x" and nz: "x \<noteq> 0" by simp_all
  have "log 2 (1 / 2) \<le> log 2 x" using x by (subst log_le_cancel_iff) simp_all
  then have lo: "- 1 \<le> log 2 x" by (simp add: log_divide)
  have "log 2 x < log 2 1" using x by (subst log_less_cancel_iff) simp_all
  then have hi: "log 2 x < 0" by simp
  have k: "\<lfloor>log 2 x\<rfloor> = - 1" using lo hi by linarith
  have e: "max (\<lfloor>log 2 \<bar>x\<bar>\<rfloor> - 52) (- 1074) = - 53" unfolding ax k by simp
  have q: "(2::real) powr of_int (- 53) = 1 / 2 ^ 53" by (simp add: powr_neg_numeral)
  have y: "x / (1 / 2 ^ 53) = 2 ^ 53 - 1 / 2 ^ 7" by (simp add: x_def)
  have fl: "\<lfloor>(2 ^ 53 - 1 / 2 ^ 7 :: real)\<rfloor> = 2 ^ 53 - 1"
    by (rule floor_unique) simp_all
  have r: "round_half_even (2 ^ 53 - 1 / 2 ^ 7) = 2 ^ 53"
    unfolding round_half_even_def Let_def fl by simp
  have "round_binary64 x = Finite 1"
    unfolding round_binary64_def Let_def e q y r using nz by simp
  then show ?thesis by (simp add: float_sub_def x_def)
qed

subsection \<open>Decoding\<close>

lemma uint_byte_bounds: "0 \<le> uint (b :: byte) \<and> uint b \<le> 255"
proof -
  have "uint b < 2 ^ LENGTH(8)" by (rule uint_lt2p)
  then show ?thesis by simp
qed

lemma take4_shape:
  assumes "4 \<le> length (bs :: 'a list)"
  shows "take 4 bs = [bs ! 0, bs ! 1, bs ! 2, bs ! 3]"
proof -
  obtain a as where 1: "bs = a # as" using assms by (cases bs) auto
  obtain b bs' where 2: "as = b # bs'" using assms 1 by (cases as) auto
  obtain c cs where 3: "bs' = c # cs" using assms 1 2 by (cases bs') auto
  obtain d ds where 4: "cs = d # ds" using assms 1 2 3 by (cases cs) auto
  show ?thesis by (simp add: 1 2 3 4)
qed

lemma unpack_take4:
  assumes "4 \<le> length dat"
  shows "unpack_HBB (take 4 dat) =
           Inr (uint (dat ! 0) + 256 * uint (dat ! 1), uint (dat ! 2), uint (dat ! 3))"
  by (simp add: take4_shape [OF assms])

lemma plausible_iff:
  "engine_payload_is_plausible rpm temp fuel \<longleftrightarrow>
     0 \<le> rpm \<and> rpm \<le> 8000 \<and> - 40 \<le> temp \<and> temp \<le> 150 \<and> 0 \<le> fuel \<and> fuel \<le> 100"
  by (auto simp: engine_payload_is_plausible_def)

text \<open>
  Claim C4. For every payload of at least 4 bytes, the decode of its first four bytes
  yields rpm as the little-endian unsigned 16-bit value of bytes 0 and 1, and temperature
  and fuel as the unsigned 8-bit values of bytes 2 and 3; the validator returns false
  exactly when rpm is outside [0, 8000], or temperature is outside [-40, 150], or fuel
  is outside [0, 100], and true otherwise.
\<close>

theorem engine_validator_decodes_and_checks_ranges:
  assumes "4 \<le> length dat"
  shows "unpack_HBB (take 4 dat) =
           Inr (uint (dat ! 0) + 256 * uint (dat ! 1), uint (dat ! 2), uint (dat ! 3)) \<and>
         0 \<le> uint (dat ! 0) + 256 * uint (dat ! 1) \<and>
         uint (dat ! 0) + 256 * uint (dat ! 1) < 2 ^ 16 \<and>
         0 \<le> uint (dat ! 2) \<and> uint (dat ! 2) < 2 ^ 8 \<and>
         0 \<le> uint (dat ! 3) \<and> uint (dat ! 3) < 2 ^ 8 \<and>
         (\<forall>rpm temp fuel.
            (engine_payload_is_plausible rpm temp fuel = False \<longleftrightarrow>
               (rpm < 0 \<or> 8000 < rpm \<or> temp < - 40 \<or> 150 < temp \<or> fuel < 0 \<or> 100 < fuel)) \<and>
            (engine_payload_is_plausible rpm temp fuel = True \<longleftrightarrow>
               (0 \<le> rpm \<and> rpm \<le> 8000 \<and> - 40 \<le> temp \<and> temp \<le> 150 \<and>
                0 \<le> fuel \<and> fuel \<le> 100)))"
proof -
  have b0: "0 \<le> uint (dat ! 0) \<and> uint (dat ! 0) \<le> 255" by (rule uint_byte_bounds)
  have b1: "0 \<le> uint (dat ! 1) \<and> uint (dat ! 1) \<le> 255" by (rule uint_byte_bounds)
  have b2: "0 \<le> uint (dat ! 2) \<and> uint (dat ! 2) < 2 ^ 8"
    using uint_byte_bounds [of "dat ! 2"] by simp
  have b3: "0 \<le> uint (dat ! 3) \<and> uint (dat ! 3) < 2 ^ 8"
    using uint_byte_bounds [of "dat ! 3"] by simp
  have rng: "0 \<le> uint (dat ! 0) + 256 * uint (dat ! 1) \<and>
             uint (dat ! 0) + 256 * uint (dat ! 1) < 2 ^ 16"
    using b0 b1 by simp
  have chk: "\<forall>rpm temp fuel.
            (engine_payload_is_plausible rpm temp fuel = False \<longleftrightarrow>
               (rpm < 0 \<or> 8000 < rpm \<or> temp < - 40 \<or> 150 < temp \<or> fuel < 0 \<or> 100 < fuel)) \<and>
            (engine_payload_is_plausible rpm temp fuel = True \<longleftrightarrow>
               (0 \<le> rpm \<and> rpm \<le> 8000 \<and> - 40 \<le> temp \<and> temp \<le> 150 \<and>
                0 \<le> fuel \<and> fuel \<le> 100))"
    by (auto simp: plausible_iff)
  from unpack_take4 [OF assms] rng b2 b3 chk show ?thesis
    by blast
qed

theorem engine_validator_decodes_and_checks_ranges_witness:
  "4 \<le> length [0xC4, 0x09, 90, 70 :: byte] \<and>
   unpack_HBB (take 4 [0xC4, 0x09, 90, 70]) = Inr (2500, 90, 70) \<and>
   engine_payload_is_plausible 2500 90 70 = True"
  using engine_validator_decodes_and_checks_ranges [of "[0xC4, 0x09, 90, 70]"]
  by (simp add: plausible_iff)

text \<open>
  Claim C10. The temperature is decoded as an unsigned byte, so it lies in [0, 255]; the
  lower bound -40 of the plausibility check never rejects a decoded payload, and for
  every payload of at least 4 bytes the validator accepts exactly when the decoded rpm is
  at most 8000, the decoded temperature at most 150 and the decoded fuel at most 100.
\<close>

theorem temperature_lower_bound_never_rejects:
  assumes "4 \<le> length dat"
  shows "\<exists>rpm temp fuel.
           unpack_HBB (take 4 dat) = Inr (rpm, temp, fuel) \<and>
           0 \<le> temp \<and> temp \<le> 255 \<and> \<not> temp < - 40 \<and>
           (engine_payload_is_plausible rpm temp fuel \<longleftrightarrow>
              rpm \<le> 8000 \<and> temp \<le> 150 \<and> fuel \<le> 100)"
proof -
  let ?rpm = "uint (dat ! 0) + 256 * uint (dat ! 1)"
  let ?temp = "uint (dat ! 2)"
  let ?fuel = "uint (dat ! 3)"
  have b0: "0 \<le> uint (dat ! 0)" and b1: "0 \<le> uint (dat ! 1)" by simp_all
  have r: "0 \<le> ?rpm" using b0 b1 by simp
  have t: "0 \<le> ?temp \<and> ?temp \<le> 255" by (rule uint_byte_bounds)
  have f: "0 \<le> ?fuel" by simp
  have "unpack_HBB (take 4 dat) = Inr (?rpm, ?temp, ?fuel)"
    by (rule unpack_take4 [OF assms])
  moreover have "\<not> ?temp < - 40" using t by linarith
  moreover have "engine_payload_is_plausible ?rpm ?temp ?fuel \<longleftrightarrow>
                   ?rpm \<le> 8000 \<and> ?temp \<le> 150 \<and> ?fuel \<le> 100"
    using r t f unfolding plausible_iff by linarith
  ultimately show ?thesis using t by blast
qed

theorem temperature_lower_bound_never_rejects_witness:
  "4 \<le> length [0x10, 0x27, 0xFF, 50, 7 :: byte] \<and>
   unpack_HBB (take 4 [0x10, 0x27, 0xFF, 50, 7]) = Inr (10000, 255, 50) \<and>
   \<not> engine_payload_is_plausible 10000 255 50"
  using temperature_lower_bound_never_rejects [of "[0x10, 0x27, 0xFF, 50, 7]"]
  by (simp add: plausible_iff)


subsection \<open>The loop body, branch by branch\<close>

lemma record_and_count_eq:
  "record_and_count i now tm =
     (Suc (length (filter (\<lambda>ts. now - ts < 1 - 1 / 2 ^ 54)
                     (case tm i of Some l \<Rightarrow> l | None \<Rightarrow> []))),
      tm(i \<mapsto> filter (\<lambda>ts. now - ts < 1 - 1 / 2 ^ 54)
                  (case tm i of Some l \<Rightarrow> l | None \<Rightarrow> []) @ [now]))"
  by (simp add: record_and_count_def Let_def in_window_fun)

lemma snd_record_and_count_other:
  "j \<noteq> i \<Longrightarrow> snd (record_and_count i now tm) j = tm j"
  by (simp add: record_and_count_eq)

lemma body_blocked_rate:
  assumes "max_rate (lookup_policy (per_id_policy s) (arbitration_id msg))
             < int (fst (record_and_count (arbitration_id msg) now (id_timestamps s)))"
  shows "gateway_body now msg s =
           Inr (\<lparr>line = BLOCKED_rate_limit
                          (label (lookup_policy (per_id_policy s) (arbitration_id msg))),
                  observed_rate = fst (record_and_count (arbitration_id msg) now (id_timestamps s)),
                  policy_used = lookup_policy (per_id_policy s) (arbitration_id msg),
                  plausibility = None\<rparr>,
                s\<lparr>id_timestamps :=
                     snd (record_and_count (arbitration_id msg) now (id_timestamps s))\<rparr>)"
  using assms by (simp add: gateway_body_def Let_def split_beta)

lemma body_legit:
  assumes "\<not> max_rate (lookup_policy (per_id_policy s) (arbitration_id msg))
             < int (fst (record_and_count (arbitration_id msg) now (id_timestamps s)))"
      and "arbitration_id msg = LEGIT_ID" and "4 \<le> length (data msg)"
      and "unpack_HBB (take 4 (data msg)) = Inr (rpm, temp, fuel)"
  shows "gateway_body now msg s =
           Inr (\<lparr>line = (if engine_payload_is_plausible rpm temp fuel
                          then FORWARDED_LEGIT_ENGINE rpm temp fuel else BLOCKED_implausible),
                  observed_rate = fst (record_and_count (arbitration_id msg) now (id_timestamps s)),
                  policy_used = lookup_policy (per_id_policy s) (arbitration_id msg),
                  plausibility = Some (engine_payload_is_plausible rpm temp fuel)\<rparr>,
                s\<lparr>id_timestamps :=
                     snd (record_and_count (arbitration_id msg) now (id_timestamps s))\<rparr>)"
  using assms by (simp add: gateway_body_def Let_def split_beta)

lemma body_unchecked:
  assumes "\<not> max_rate (lookup_policy (per_id_policy s) (arbitration_id msg))
             < int (fst (record_and_count (arbitration_id msg) now (id_timestamps s)))"
      and "\<not> (arbitration_id msg = LEGIT_ID \<and> 4 \<le> length (data msg))"
  shows "gateway_body now msg s =
           Inr (\<lparr>line = (if arbitration_id msg = FLOOD_ID then FORWARDED_flood
                          else FORWARDED_other),
                  observed_rate = fst (record_and_count (arbitration_id msg) now (id_timestamps s)),
                  policy_used = lookup_policy (per_id_policy s) (arbitration_id msg),
                  plausibility = None\<rparr>,
                s\<lparr>id_timestamps :=
                     snd (record_and_count (arbitration_id msg) now (id_timestamps s))\<rparr>)"
  using assms by (auto simp add: gateway_body_def Let_def split_beta)

text \<open>
  Every iteration returns a decision, and a state in which only the window of the
  message's identifier is new.
\<close>

lemma body_total:
  "\<exists>d. gateway_body now msg s =
          Inr (d, s\<lparr>id_timestamps :=
                       snd (record_and_count (arbitration_id msg) now (id_timestamps s))\<rparr>) \<and>
        observed_rate d = fst (record_and_count (arbitration_id msg) now (id_timestamps s)) \<and>
        policy_used d = lookup_policy (per_id_policy s) (arbitration_id msg) \<and>
        (plausibility d \<noteq> None \<longrightarrow> arbitration_id msg = LEGIT_ID \<and> 4 \<le> length (data msg))"
proof (cases "max_rate (lookup_policy (per_id_policy s) (arbitration_id msg))
             < int (fst (record_and_count (arbitration_id msg) now (id_timestamps s)))")
  case True
  show ?thesis unfolding body_blocked_rate [OF True] by simp
next
  case over: False
  show ?thesis
  proof (cases "arbitration_id msg = LEGIT_ID \<and> 4 \<le> length (data msg)")
    case True
    then have len: "4 \<le> length (data msg)" and leg: "arbitration_id msg = LEGIT_ID"
      by simp_all
    show ?thesis
      unfolding body_legit [OF over leg len unpack_take4 [OF len]] using True by simp
  next
    case False
    show ?thesis unfolding body_unchecked [OF over False] by simp
  qed
qed

lemma LEGIT_not_FLOOD: "LEGIT_ID \<noteq> FLOOD_ID"
  by (simp add: LEGIT_ID_def FLOOD_ID_def)

lemma absent_from_PER_ID_POLICY:
  "map_of PER_ID_POLICY i = None \<longleftrightarrow> i \<noteq> LEGIT_ID \<and> i \<noteq> FLOOD_ID"
  by (auto simp: PER_ID_POLICY_def)

lemma lookup_policy_absent:
  "map_of tbl i = None \<Longrightarrow>
   lookup_policy tbl i = \<lparr>max_rate = DEFAULT_MAX_RATE, label = ''UNKNOWN_ID'', trusted = False\<rparr>"
  by (simp add: lookup_policy_def)

text \<open>
  Claim C1. When the rate recorded and counted for a frame exceeds \<open>max_rate\<close> of the
  policy that applies to its identifier, the iteration returns the rate-limit block; the
  plausibility check is not called, and the decision and the new state are the same for
  every payload.
\<close>

theorem rate_limit_takes_precedence:
  assumes "max_rate (lookup_policy (per_id_policy s) (arbitration_id msg))
             < int (fst (record_and_count (arbitration_id msg) now (id_timestamps s)))"
  shows "\<exists>d s'. gateway_body now msg s = Inr (d, s') \<and>
           outcome_of (line d) = BlockedRateLimit \<and> plausibility d = None \<and>
           (\<forall>payload. gateway_body now (msg\<lparr>data := payload\<rparr>) s = Inr (d, s'))"
proof -
  have "\<And>payload. max_rate (lookup_policy (per_id_policy s) (arbitration_id (msg\<lparr>data := payload\<rparr>)))
             < int (fst (record_and_count (arbitration_id (msg\<lparr>data := payload\<rparr>)) now (id_timestamps s)))"
    using assms by simp
  from body_blocked_rate [OF this] body_blocked_rate [OF assms] show ?thesis
    by simp
qed

theorem rate_limit_takes_precedence_witness:
  "max_rate (lookup_policy PER_ID_POLICY LEGIT_ID)
     < int (fst (record_and_count LEGIT_ID (1/2) [LEGIT_ID \<mapsto> replicate 50 0])) \<and>
   map_sum id (outcome_of \<circ> line \<circ> fst)
     (gateway_body (1/2) \<lparr>arbitration_id = LEGIT_ID, data = [0x28, 0x23, 90, 70]\<rparr>
        \<lparr>per_id_policy = PER_ID_POLICY, id_timestamps = [LEGIT_ID \<mapsto> replicate 50 0]\<rparr>)
     = Inr BlockedRateLimit \<and>
   map_sum id (outcome_of \<circ> line \<circ> fst)
     (gateway_body (1/2) \<lparr>arbitration_id = LEGIT_ID, data = [0x28, 0x23, 90, 70]\<rparr>
        \<lparr>per_id_policy = PER_ID_POLICY, id_timestamps = [LEGIT_ID \<mapsto> replicate 49 0]\<rparr>)
     = Inr BlockedSemanticCheck"
proof -
  have h: "max_rate (lookup_policy PER_ID_POLICY LEGIT_ID)
     < int (fst (record_and_count LEGIT_ID (1/2) [LEGIT_ID \<mapsto> replicate 50 0]))"
    by (simp add: record_and_count_eq lookup_policy_def PER_ID_POLICY_def)
  have g: "\<not> max_rate (lookup_policy PER_ID_POLICY LEGIT_ID)
     < int (fst (record_and_count LEGIT_ID (1/2) [LEGIT_ID \<mapsto> replicate 49 0]))"
    by (simp add: record_and_count_eq lookup_policy_def PER_ID_POLICY_def)
  have 2: "map_sum id (outcome_of \<circ> line \<circ> fst)
     (gateway_body (1/2) \<lparr>arbitration_id = LEGIT_ID, data = [0x28, 0x23, 90, 70]\<rparr>
        \<lparr>per_id_policy = PER_ID_POLICY, id_timestamps = [LEGIT_ID \<mapsto> replicate 49 0]\<rparr>)
     = Inr BlockedSemanticCheck"
    by (subst body_legit [where rpm = 9000 and temp = 90 and fuel = 70])
       (use g in \<open>simp_all add: plausible_iff\<close>)
  show ?thesis
    using h 2 rate_limit_takes_precedence
      [of "\<lparr>per_id_policy = PER_ID_POLICY, id_timestamps = [LEGIT_ID \<mapsto> replicate 50 0]\<rparr>"
          "\<lparr>arbitration_id = LEGIT_ID, data = [0x28, 0x23, 90, 70]\<rparr>" "1/2"]
    by auto
qed

text \<open>
  Claim C3. The claim asks that a frame of the trusted identifier whose payload is
  shorter than 4 bytes, at a rate within the limit, be blocked by the semantic check.
  The loop body does not do so: a three-byte payload on \<^verbatim>\<open>LEGIT_ID\<close>, first frame of
  its window, fails the guard \<^verbatim>\<open>len(data) >= 4\<close>, reaches the final \<^verbatim>\<open>else\<close> branch
  (the one for other and unknown identifiers) and is forwarded without any check.
\<close>

theorem undersized_engine_payload_is_forwarded:
  "trusted (lookup_policy PER_ID_POLICY LEGIT_ID) \<and>
   length [1, 2, 3 :: byte] < 4 \<and>
   \<not> max_rate (lookup_policy PER_ID_POLICY LEGIT_ID)
       < int (fst (record_and_count LEGIT_ID 0 Map.empty)) \<and>
   map_sum id (line \<circ> fst)
     (gateway_body 0 \<lparr>arbitration_id = LEGIT_ID, data = [1, 2, 3]\<rparr> init_state)
     = Inr FORWARDED_other \<and>
   map_sum id (outcome_of \<circ> line \<circ> fst)
     (gateway_body 0 \<lparr>arbitration_id = LEGIT_ID, data = [1, 2, 3]\<rparr> init_state)
     = Inr Forwarded \<and>
   map_sum id (outcome_of \<circ> line \<circ> fst)
     (gateway_body 0 \<lparr>arbitration_id = LEGIT_ID, data = [1, 2, 3]\<rparr> init_state)
     \<noteq> Inr BlockedSemanticCheck"
proof -
  have g: "\<not> max_rate (lookup_policy (per_id_policy init_state) LEGIT_ID)
     < int (fst (record_and_count LEGIT_ID 0 (id_timestamps init_state)))"
    by (simp add: record_and_count_eq lookup_policy_def PER_ID_POLICY_def init_state_def)
  have "gateway_body 0 \<lparr>arbitration_id = LEGIT_ID, data = [1, 2, 3]\<rparr> init_state =
      Inr (\<lparr>line = FORWARDED_other,
             observed_rate = fst (record_and_count LEGIT_ID 0 (id_timestamps init_state)),
             policy_used = lookup_policy (per_id_policy init_state) LEGIT_ID,
             plausibility = None\<rparr>,
           init_state\<lparr>id_timestamps :=
             snd (record_and_count LEGIT_ID 0 (id_timestamps init_state))\<rparr>)"
    by (subst body_unchecked) (use g LEGIT_not_FLOOD in simp_all)
  then show ?thesis
    using g by (simp add: lookup_policy_def PER_ID_POLICY_def init_state_def)
qed

text \<open>
  Claim C5. For a frame whose identifier is absent from \<^verbatim>\<open>PER_ID_POLICY\<close>, the iteration
  applies the default policy (\<^verbatim>\<open>DEFAULT_MAX_RATE\<close>, label \<^verbatim>\<open>UNKNOWN_ID\<close>, untrusted),
  never calls the plausibility check whatever the payload, and forwards the frame
  whenever the observed rate does not exceed the default limit (and blocks it for rate
  otherwise).
\<close>

theorem unknown_identifier_uses_default_policy:
  assumes "per_id_policy s = PER_ID_POLICY"
      and "map_of PER_ID_POLICY (arbitration_id msg) = None"
  shows "\<exists>d s'. gateway_body now msg s = Inr (d, s') \<and>
           policy_used d =
             \<lparr>max_rate = DEFAULT_MAX_RATE, label = ''UNKNOWN_ID'', trusted = False\<rparr> \<and>
           observed_rate d = fst (record_and_count (arbitration_id msg) now (id_timestamps s)) \<and>
           plausibility d = None \<and>
           (if int (observed_rate d) \<le> DEFAULT_MAX_RATE
            then outcome_of (line d) = Forwarded
            else outcome_of (line d) = BlockedRateLimit)"
proof -
  let ?i = "arbitration_id msg"
  have pol: "lookup_policy (per_id_policy s) ?i =
               \<lparr>max_rate = DEFAULT_MAX_RATE, label = ''UNKNOWN_ID'', trusted = False\<rparr>"
    using assms by (simp add: lookup_policy_absent)
  have nl: "\<not> (?i = LEGIT_ID \<and> 4 \<le> length (data msg))"
    using assms(2) by (simp add: absent_from_PER_ID_POLICY)
  show ?thesis
  proof (cases "max_rate (lookup_policy (per_id_policy s) ?i)
             < int (fst (record_and_count ?i now (id_timestamps s)))")
    case True
    show ?thesis
      unfolding body_blocked_rate [OF True] using True by (simp add: pol)
  next
    case False
    show ?thesis
      unfolding body_unchecked [OF False nl] using False by (simp add: pol)
  qed
qed

theorem unknown_identifier_uses_default_policy_witness:
  "per_id_policy init_state = PER_ID_POLICY \<and>
   map_of PER_ID_POLICY 0x777 = None \<and>
   (\<exists>d s'. gateway_body 0 \<lparr>arbitration_id = 0x777, data = [0x28, 0x23, 90, 70]\<rparr> init_state
              = Inr (d, s') \<and>
      label (policy_used d) = ''UNKNOWN_ID'' \<and> max_rate (policy_used d) = 15 \<and>
      observed_rate d = 1 \<and> plausibility d = None \<and> outcome_of (line d) = Forwarded)"
proof -
  have a: "per_id_policy init_state = PER_ID_POLICY" by (simp add: init_state_def)
  have b: "map_of PER_ID_POLICY
             (arbitration_id \<lparr>arbitration_id = 0x777, data = [0x28, 0x23, 90, 70]\<rparr>) = None"
    by (simp add: PER_ID_POLICY_def LEGIT_ID_def FLOOD_ID_def)
  have c: "fst (record_and_count 0x777 0 (id_timestamps init_state)) = 1"
    by (simp add: record_and_count_eq init_state_def)
  from unknown_identifier_uses_default_policy [OF a b, of 0] a b c show ?thesis
    by (auto simp: DEFAULT_MAX_RATE_def)
qed

subsection \<open>Totality and frame conditions\<close>

lemma gateway_total:
  "\<exists>ds s'. defensive_gateway rx s = Inr (ds, s') \<and> length ds = length rx \<and>
            per_id_policy s' = per_id_policy s"
proof (induction rx arbitrary: s)
  case Nil
  show ?case by simp
next
  case (Cons ev rx)
  obtain now msg where ev: "ev = (now, msg)" by (cases ev)
  obtain d where d: "gateway_body now msg s =
      Inr (d, s\<lparr>id_timestamps :=
                  snd (record_and_count (arbitration_id msg) now (id_timestamps s))\<rparr>)"
    using body_total [of now msg s] by blast
  obtain ds s' where r: "defensive_gateway rx
        (s\<lparr>id_timestamps := snd (record_and_count (arbitration_id msg) now (id_timestamps s))\<rparr>)
          = Inr (ds, s')"
      and l: "length ds = length rx" and p: "per_id_policy s' = per_id_policy s"
    using Cons.IH [of "s\<lparr>id_timestamps :=
                  snd (record_and_count (arbitration_id msg) now (id_timestamps s))\<rparr>"]
    by auto
  show ?case by (simp add: ev d r l p)
qed

text \<open>
  Claim C7. For every clock value, identifier, payload and state, one iteration returns
  a decision and raises nothing; the payload is decoded only when it has at least 4
  bytes, where the decode of its first four bytes cannot raise; hence the loop over any
  finite list of received messages returns one decision per message.
\<close>

theorem evaluation_never_raises:
  "(\<exists>d s'. gateway_body now msg s = Inr (d, s') \<and>
      (plausibility d \<noteq> None \<longrightarrow> 4 \<le> length (data msg))) \<and>
   (4 \<le> length (data msg) \<longrightarrow> (\<exists>r. unpack_HBB (take 4 (data msg)) = Inr r)) \<and>
   (\<exists>ds s'. defensive_gateway rx s = Inr (ds, s') \<and> length ds = length rx)"
proof (intro conjI impI)
  show "\<exists>d s'. gateway_body now msg s = Inr (d, s') \<and>
      (plausibility d \<noteq> None \<longrightarrow> 4 \<le> length (data msg))"
    using body_total [of now msg s] by blast
  show "\<exists>r. unpack_HBB (take 4 (data msg)) = Inr r" if "4 \<le> length (data msg)"
    using unpack_take4 [OF that] by blast
  show "\<exists>ds s'. defensive_gateway rx s = Inr (ds, s') \<and> length ds = length rx"
    using gateway_total [of rx s] by blast
qed

theorem evaluation_never_raises_witness:
  "(\<exists>d s'. gateway_body 0 \<lparr>arbitration_id = LEGIT_ID, data = []\<rparr> init_state = Inr (d, s')) \<and>
   (\<exists>r. unpack_HBB (take 4 [0xDE, 0xAD, 0xBE, 0xEF, 0x00]) = Inr r) \<and>
   (\<exists>ds s'. defensive_gateway
       [(0, \<lparr>arbitration_id = FLOOD_ID, data = [0xDE, 0xAD, 0xBE, 0xEF]\<rparr>),
        (1/4, \<lparr>arbitration_id = LEGIT_ID, data = [0xC4, 0x09]\<rparr>)] init_state = Inr (ds, s') \<and>
      length ds = 2)"
  using evaluation_never_raises
      [of 0 "\<lparr>arbitration_id = LEGIT_ID, data = []\<rparr>" init_state
          "[(0, \<lparr>arbitration_id = FLOOD_ID, data = [0xDE, 0xAD, 0xBE, 0xEF]\<rparr>),
            (1/4, \<lparr>arbitration_id = LEGIT_ID, data = [0xC4, 0x09]\<rparr>)]"]
    evaluation_never_raises
      [of 0 "\<lparr>arbitration_id = LEGIT_ID, data = [0xDE, 0xAD, 0xBE, 0xEF, 0x00]\<rparr>" init_state "[]"]
  by auto

text \<open>
  Claim C8. One iteration for a frame with identifier \<open>i\<close> leaves the policy table as it
  was and changes the timestamp map at \<open>i\<close> only: the window of every other identifier
  is unchanged.
\<close>

theorem evaluation_mutates_only_own_window:
  "\<exists>d s'. gateway_body now msg s = Inr (d, s') \<and>
     per_id_policy s' = per_id_policy s \<and>
     (\<forall>j. j \<noteq> arbitration_id msg \<longrightarrow> id_timestamps s' j = id_timestamps s j) \<and>
     (\<exists>l. s' = s\<lparr>id_timestamps := (id_timestamps s)(arbitration_id msg \<mapsto> l)\<rparr>)"
proof -
  obtain d where d: "gateway_body now msg s =
      Inr (d, s\<lparr>id_timestamps :=
                  snd (record_and_count (arbitration_id msg) now (id_timestamps s))\<rparr>)"
    using body_total [of now msg s] by blast
  show ?thesis
    unfolding d by (auto simp: snd_record_and_count_other) (auto simp: record_and_count_eq)
qed

theorem evaluation_mutates_only_own_window_witness:
  "FLOOD_ID \<noteq> LEGIT_ID \<and>
   (\<exists>d s'. gateway_body 2
        \<lparr>arbitration_id = LEGIT_ID, data = [0xC4, 0x09, 90, 70]\<rparr>
        (init_state\<lparr>id_timestamps := [FLOOD_ID \<mapsto> [1, 3/2]]\<rparr>) = Inr (d, s') \<and>
      per_id_policy s' = PER_ID_POLICY \<and> id_timestamps s' FLOOD_ID = Some [1, 3/2])"
  using evaluation_mutates_only_own_window
      [of 2 "\<lparr>arbitration_id = LEGIT_ID, data = [0xC4, 0x09, 90, 70]\<rparr>"
          "init_state\<lparr>id_timestamps := [FLOOD_ID \<mapsto> [1, 3/2]]\<rparr>"]
    LEGIT_not_FLOOD
  by (auto simp: init_state_def)

text \<open>
  Claim C9. Two frames with the same identifier, evaluated at the same clock value from
  the same state, whose payloads both have at least 4 bytes and agree on the first 4,
  yield the same decision and the same new state.
\<close>

theorem trailing_payload_bytes_do_not_matter:
  assumes "4 \<le> length payload1" and "4 \<le> length payload2"
      and "take 4 payload1 = take 4 payload2"
  shows "gateway_body now \<lparr>arbitration_id = i, data = payload1\<rparr> s =
         gateway_body now \<lparr>arbitration_id = i, data = payload2\<rparr> s"
  using assms by (simp add: gateway_body_def Let_def split_beta)

theorem trailing_payload_bytes_do_not_matter_witness:
  "4 \<le> length [0x28, 0x23, 90, 70 :: byte] \<and> 4 \<le> length [0x28, 0x23, 90, 70, 1, 2, 3 :: byte] \<and>
   take 4 [0x28, 0x23, 90, 70 :: byte] = take 4 [0x28, 0x23, 90, 70, 1, 2, 3] \<and>
   gateway_body 0 \<lparr>arbitration_id = LEGIT_ID, data = [0x28, 0x23, 90, 70]\<rparr> init_state =
   gateway_body 0 \<lparr>arbitration_id = LEGIT_ID, data = [0x28, 0x23, 90, 70, 1, 2, 3]\<rparr> init_state"
  using trailing_payload_bytes_do_not_matter
     [of "[0x28, 0x23, 90, 70]" "[0x28, 0x23, 90, 70, 1, 2, 3]" 0 LEGIT_ID init_state]
  by simp

subsection \<open>The policy table\<close>




subsection \<open>The sliding window\<close>

lemma arrivals_Nil [simp]: "arrivals i [] = []"
  by (simp add: arrivals_def)

lemma arrivals_append: "arrivals i (xs @ ys) = arrivals i xs @ arrivals i ys"
  by (simp add: arrivals_def)

lemma arrivals_single:
  "arrivals i [(t, m)] = (if arbitration_id m = i then [t] else [])"
  by (simp add: arrivals_def)

lemma fst_record_and_count:
  "fst (record_and_count i now tm) = Suc (length (filter (in_window now) (stored tm i)))"
  by (simp add: record_and_count_eq stored_def in_window_fun)

lemma stored_record_and_count_same:
  "stored (snd (record_and_count i now tm)) i = filter (in_window now) (stored tm i) @ [now]"
  by (simp add: record_and_count_eq stored_def in_window_fun)

lemma stored_record_and_count_other:
  "j \<noteq> i \<Longrightarrow> stored (snd (record_and_count j now tm)) i = stored tm i"
  by (simp add: record_and_count_eq stored_def)

lemma filter_recent:
  assumes "sorted (ts @ [now])"
  shows "filter (in_window now) (recent ts) = filter (in_window now) ts"
proof (cases "ts = []")
  case True
  then show ?thesis by (simp add: recent_def)
next
  case False
  then have "last ts \<in> set ts" by simp
  with assms have le: "last ts \<le> now" by (simp add: sorted_append)
  have "filter (in_window now) (filter (in_window (last ts)) ts) = filter (in_window now) ts"
    unfolding filter_filter using le by (intro filter_cong refl) (auto simp: in_window_iff)
  with False show ?thesis by (simp add: recent_def)
qed

lemma recent_snoc:
  assumes "sorted (ts @ [now])"
  shows "recent (ts @ [now]) = filter (in_window now) (recent ts) @ [now]"
  by (simp add: recent_def [of "ts @ [now]"] filter_recent [OF assms] in_window_iff)

lemma window_count_snoc:
  fixes now :: real
  assumes "sorted (ts @ [now])"
  shows "length (filter (\<lambda>u. now - (1 - 1 / 2 ^ 54) < u \<and> u \<le> now) (ts @ [now])) =
         Suc (length (filter (in_window now) ts))"
proof -
  have "\<forall>u\<in>set ts. u \<le> now" using assms by (simp add: sorted_append)
  moreover have "(now - (1 - 1 / 2 ^ 54) < u) = in_window now u" for u
    unfolding in_window_iff by linarith
  ultimately have "filter (\<lambda>u. now - (1 - 1 / 2 ^ 54) < u \<and> u \<le> now) ts =
                   filter (in_window now) ts"
    by (intro filter_cong refl) auto
  then show ?thesis by simp
qed

text \<open>
  Timestamps on the grid of \<^verbatim>\<open>2^-51\<close>, where every binary64 number of magnitude 2 or
  more lies: there no exact age falls between \<^verbatim>\<open>1 - 2^-54\<close> and 1, and the window is the
  interval of length one.
\<close>

lemma binary64_grid:
  assumes "is_binary64 x" and "2 \<le> \<bar>x\<bar>"
  shows "\<exists>n::int. x = of_int n / 2 ^ 51"
proof -
  let ?k = "\<lfloor>log 2 \<bar>x\<bar>\<rfloor>"
  define e where "e = max (?k - 52) (- 1074)"
  define N where "N = round_half_even (x / 2 powr of_int e)"
  have nz: "x \<noteq> 0" using assms(2) by auto
  have "log 2 2 \<le> log 2 \<bar>x\<bar>" using assms(2) by (subst log_le_cancel_iff) simp_all
  then have "1 \<le> ?k" by simp
  then have e: "0 \<le> e + 51" unfolding e_def by linarith
  have "round_binary64 x = Finite x" using assms(1) by (simp add: is_binary64_def)
  then have x: "x = of_int N * 2 powr of_int e"
    unfolding round_binary64_def Let_def N_def e_def using nz
    by (simp split: if_splits)
  have "(2::real) powr of_int e = 2 powr (of_int (e + 51) - 51)" by simp
  also have "\<dots> = 2 powr of_int (e + 51) / 2 powr 51" by (rule powr_diff)
  also have "\<dots> = 2 ^ nat (e + 51) / 2 ^ 51"
  proof -
    have "(2::real) powr real_of_int (e + 51) =
            (if 0 \<le> e + 51 then 2 ^ nat (e + 51) else inverse (2 ^ nat (- (e + 51))))"
      by (rule powr_real_of_int) simp
    then have "(2::real) powr real_of_int (e + 51) = 2 ^ nat (e + 51)"
      using e by (simp only: if_True)
    moreover have "(2::real) powr 51 = 2 ^ 51" by simp
    ultimately show ?thesis by (simp only:)
  qed
  finally have "x = of_int (N * 2 ^ nat (e + 51)) / 2 ^ 51" using x by simp
  then show ?thesis by blast
qed

lemma grid_window:
  fixes a b :: int
  shows "(of_int a / 2 ^ 51 - of_int b / 2 ^ 51 < (1::real) - 1 / 2 ^ 54) \<longleftrightarrow>
         (of_int a / 2 ^ 51 - of_int b / 2 ^ 51 < (1::real))"
proof -
  define x where "x = real_of_int (a - b)"
  have d: "of_int a / 2 ^ 51 - of_int b / 2 ^ 51 = x / 2 ^ 51"
    by (simp add: x_def diff_divide_distrib)
  have "(x / 2 ^ 51 < 1 - 1 / 2 ^ 54) \<longleftrightarrow> (x / 2 ^ 51 * 2 ^ 54 < (1 - 1 / 2 ^ 54) * 2 ^ 54)"
    by (rule mult_less_cancel_right_pos [symmetric]) simp
  also have "x / 2 ^ 51 * 2 ^ 54 = 8 * x" by simp
  also have "(1 - 1 / 2 ^ 54) * 2 ^ 54 = (2 ^ 54 - 1 :: real)" by (simp add: algebra_simps)
  also have "(8 * x < 2 ^ 54 - 1) \<longleftrightarrow> real_of_int (8 * (a - b)) < real_of_int (2 ^ 54 - 1)"
    by (simp add: x_def)
  also have "\<dots> \<longleftrightarrow> 8 * (a - b) < 2 ^ 54 - 1"
    by (rule of_int_less_iff)
  also have "\<dots> \<longleftrightarrow> a - b < 2 ^ 51"
    by simp presburger
  also have "\<dots> \<longleftrightarrow> real_of_int (a - b) < real_of_int (2 ^ 51)"
    by (rule of_int_less_iff [symmetric])
  also have "\<dots> \<longleftrightarrow> x / 2 ^ 51 < 1"
    by (simp add: x_def)
  finally show ?thesis by (simp only: d)
qed

lemma grid_count:
  fixes t :: real
  assumes "\<forall>u\<in>set ts. \<exists>n::int. u = of_int n / 2 ^ 51" and "\<exists>n::int. t = of_int n / 2 ^ 51"
  shows "filter (\<lambda>u. t - (1 - 1 / 2 ^ 54) < u \<and> u \<le> t) ts = filter (\<lambda>u. t - 1 < u \<and> u \<le> t) ts"
proof (intro filter_cong refl)
  fix u assume "u \<in> set ts"
  with assms obtain a b :: int
    where t: "t = of_int a / 2 ^ 51" and u: "u = of_int b / 2 ^ 51" by blast
  have eq: "(t - u < 1 - 1 / 2 ^ 54) = (t - u < 1)"
    unfolding t u by (rule grid_window)
  have a1: "(t - (1 - 1 / 2 ^ 54) < u) = (t - u < 1 - 1 / 2 ^ 54)" by linarith
  have a2: "(t - 1 < u) = (t - u < 1)" by linarith
  show "(t - (1 - 1 / 2 ^ 54) < u \<and> u \<le> t) = (t - 1 < u \<and> u \<le> t)"
    by (simp only: a1 a2 eq)
qed

lemma run_counts:
  assumes "stored (id_timestamps s) i = recent (arrivals i hist)"
      and "sorted (arrivals i (hist @ rx))"
  shows "\<exists>ds s'. defensive_gateway rx s = Inr (ds, s') \<and> length ds = length rx \<and>
           (\<forall>k<length rx. arbitration_id (snd (rx ! k)) = i \<longrightarrow>
              observed_rate (ds ! k) =
                length (filter (\<lambda>u. fst (rx ! k) - (1 - 1 / 2 ^ 54) < u \<and> u \<le> fst (rx ! k))
                         (arrivals i (hist @ take (Suc k) rx))))"
  using assms
proof (induction rx arbitrary: s hist)
  case Nil
  show ?case by simp
next
  case (Cons ev rx)
  obtain now msg where ev: "ev = (now, msg)" by (cases ev)
  let ?j = "arbitration_id msg"
  let ?s1 = "s\<lparr>id_timestamps := snd (record_and_count ?j now (id_timestamps s))\<rparr>"
  let ?hist1 = "hist @ [(now, msg)]"
  obtain d where d: "gateway_body now msg s = Inr (d, ?s1)"
      and rate: "observed_rate d = fst (record_and_count ?j now (id_timestamps s))"
    using body_total [of now msg s] by blast
  have srt: "sorted (arrivals i (?hist1 @ rx))"
    using Cons.prems(2) by (simp add: ev)
  have "sorted (arrivals i ?hist1 @ arrivals i rx)"
    using srt by (simp only: arrivals_append)
  then have srt1: "sorted (arrivals i ?hist1)"
    by (simp only: sorted_append)
  have inv1: "stored (id_timestamps ?s1) i = recent (arrivals i ?hist1)"
  proof (cases "?j = i")
    case True
    have s: "sorted (arrivals i hist @ [now])"
      using srt1 True by (simp add: arrivals_append arrivals_single)
    show ?thesis
      using True Cons.prems(1)
      by (simp add: stored_record_and_count_same arrivals_append arrivals_single
            recent_snoc [OF s] filter_recent [OF s])
  next
    case False
    then show ?thesis
      using Cons.prems(1)
      by (simp add: stored_record_and_count_other arrivals_append arrivals_single)
  qed
  have d_rate: "observed_rate d =
      length (filter (\<lambda>u. now - (1 - 1 / 2 ^ 54) < u \<and> u \<le> now) (arrivals i ?hist1))"
    if "?j = i"
  proof -
    have s: "sorted (arrivals i hist @ [now])"
      using srt1 that by (simp add: arrivals_append arrivals_single)
    have a: "arrivals i ?hist1 = arrivals i hist @ [now]"
      using that by (simp add: arrivals_append arrivals_single)
    have "observed_rate d =
            Suc (length (filter (in_window now) (recent (arrivals i hist))))"
      using that Cons.prems(1) by (simp add: rate fst_record_and_count)
    also have "\<dots> = Suc (length (filter (in_window now) (arrivals i hist)))"
      by (simp only: filter_recent [OF s])
    also have "\<dots> = length (filter (\<lambda>u. now - (1 - 1 / 2 ^ 54) < u \<and> u \<le> now)
                              (arrivals i ?hist1))"
      by (simp only: a window_count_snoc [OF s])
    finally show ?thesis .
  qed
  obtain ds s' where run: "defensive_gateway rx ?s1 = Inr (ds, s')"
      and len: "length ds = length rx"
      and rest: "\<forall>k<length rx. arbitration_id (snd (rx ! k)) = i \<longrightarrow>
              observed_rate (ds ! k) =
                length (filter (\<lambda>u. fst (rx ! k) - (1 - 1 / 2 ^ 54) < u \<and> u \<le> fst (rx ! k))
                         (arrivals i (?hist1 @ take (Suc k) rx)))"
    using Cons.IH [OF inv1 srt] by blast
  have "\<forall>k<length (ev # rx). arbitration_id (snd ((ev # rx) ! k)) = i \<longrightarrow>
              observed_rate ((d # ds) ! k) =
                length (filter (\<lambda>u. fst ((ev # rx) ! k) - (1 - 1 / 2 ^ 54) < u \<and> u \<le> fst ((ev # rx) ! k))
                         (arrivals i (hist @ take (Suc k) (ev # rx))))"
  proof (intro allI impI)
    fix k
    assume k: "k < length (ev # rx)" and id: "arbitration_id (snd ((ev # rx) ! k)) = i"
    show "observed_rate ((d # ds) ! k) =
                length (filter (\<lambda>u. fst ((ev # rx) ! k) - (1 - 1 / 2 ^ 54) < u \<and> u \<le> fst ((ev # rx) ! k))
                         (arrivals i (hist @ take (Suc k) (ev # rx))))"
    proof (cases k)
      case 0
      with id have "?j = i" by (simp add: ev)
      from d_rate [OF this] 0 show ?thesis by (simp add: ev)
    next
      case (Suc n)
      with k id have "n < length rx" and "arbitration_id (snd (rx ! n)) = i" by simp_all
      with rest have "observed_rate (ds ! n) =
                length (filter (\<lambda>u. fst (rx ! n) - (1 - 1 / 2 ^ 54) < u \<and> u \<le> fst (rx ! n))
                         (arrivals i (?hist1 @ take (Suc n) rx)))" by blast
      then show ?thesis by (simp add: Suc ev)
    qed
  qed
  then show ?case
    using len by (simp add: ev d run)
qed

text \<open>
  Claim C2, as amended. Let the loop start with an empty timestamp map and receive any
  messages such that the arrival times of one identifier are non-decreasing. For every
  arrival of that identifier, at time \<open>t\<close>, the rate counted is exactly the number of the
  identifier's arrivals so far, the current one included, whose age computed in binary64
  is below \<^verbatim>\<open>1.0\<close>: those in the half-open interval from \<^verbatim>\<open>t - (1 - 2^-54)\<close>, excluded,
  to \<open>t\<close>, included. It is 1 when the identifier is seen for the first time. When the
  identifier's arrival times are multiples of \<^verbatim>\<open>2^-51\<close>, the count is the number of
  arrivals in \<open>(t - 1, t]\<close>. In one step, \<^verbatim>\<open>record_and_count\<close> drops the stored
  timestamps whose exact age is \<^verbatim>\<open>1 - 2^-54\<close> or more, appends \<open>t\<close>, stores the list and
  returns its length.
\<close>

theorem window_count_is_exact:
  assumes "sorted (arrivals (arbitration_id m) rx)"
      and "id_timestamps s0 = Map.empty"
      and "k < length rx" and "rx ! k = (t, m)"
  shows "(\<exists>ds s. defensive_gateway rx s0 = Inr (ds, s) \<and> length ds = length rx \<and>
            observed_rate (ds ! k) =
              length (filter (\<lambda>u. t - (1 - 1 / 2 ^ 54) < u \<and> u \<le> t)
                       (arrivals (arbitration_id m) (take (Suc k) rx))) \<and>
            (arrivals (arbitration_id m) (take k rx) = [] \<longrightarrow> observed_rate (ds ! k) = 1) \<and>
            ((\<forall>u\<in>set (arrivals (arbitration_id m) rx). \<exists>n::int. u = of_int n / 2 ^ 51) \<longrightarrow>
               observed_rate (ds ! k) =
                 length (filter (\<lambda>u. t - 1 < u \<and> u \<le> t)
                          (arrivals (arbitration_id m) (take (Suc k) rx))))) \<and>
         (\<forall>tm. record_and_count (arbitration_id m) t tm =
            (Suc (length (filter (\<lambda>u. t - (1 - 1 / 2 ^ 54) < u)
                           (case tm (arbitration_id m) of Some l \<Rightarrow> l | None \<Rightarrow> []))),
             tm(arbitration_id m \<mapsto>
                  filter (\<lambda>u. t - (1 - 1 / 2 ^ 54) < u)
                    (case tm (arbitration_id m) of Some l \<Rightarrow> l | None \<Rightarrow> []) @ [t])))"
proof (intro conjI allI)
  let ?i = "arbitration_id m"
  have inv: "stored (id_timestamps s0) ?i = recent (arrivals ?i [])"
    by (simp add: assms(2) stored_def recent_def)
  have srt: "sorted (arrivals ?i ([] @ rx))" using assms(1) by simp
  obtain ds s where run: "defensive_gateway rx s0 = Inr (ds, s)" and len: "length ds = length rx"
      and all: "\<forall>k<length rx. arbitration_id (snd (rx ! k)) = ?i \<longrightarrow>
              observed_rate (ds ! k) =
                length (filter (\<lambda>u. fst (rx ! k) - (1 - 1 / 2 ^ 54) < u \<and> u \<le> fst (rx ! k))
                         (arrivals ?i ([] @ take (Suc k) rx)))"
    using run_counts [OF inv srt] by blast
  have rate: "observed_rate (ds ! k) =
      length (filter (\<lambda>u. t - (1 - 1 / 2 ^ 54) < u \<and> u \<le> t) (arrivals ?i (take (Suc k) rx)))"
    using all assms(3,4) by simp
  have first: "observed_rate (ds ! k) = 1" if "arrivals ?i (take k rx) = []"
  proof -
    have "arrivals ?i (take (Suc k) rx) = [t]"
      using that assms(3,4)
      by (simp add: take_Suc_conv_app_nth arrivals_append arrivals_single)
    then show ?thesis by (simp add: rate)
  qed
  have grid: "observed_rate (ds ! k) =
      length (filter (\<lambda>u. t - 1 < u \<and> u \<le> t) (arrivals ?i (take (Suc k) rx)))"
    if g: "\<forall>u\<in>set (arrivals ?i rx). \<exists>n::int. u = of_int n / 2 ^ 51"
  proof -
    have sub: "set (arrivals ?i (take (Suc k) rx)) \<subseteq> set (arrivals ?i rx)"
      unfolding arrivals_def using set_take_subset [of "Suc k" rx] by auto
    have "(t, m) \<in> set rx" using assms(3,4) nth_mem by metis
    then have "t \<in> set (arrivals ?i rx)" by (force simp: arrivals_def)
    with g have tg: "\<exists>n::int. t = of_int n / 2 ^ 51" by blast
    have ug: "\<forall>u\<in>set (arrivals ?i (take (Suc k) rx)). \<exists>n::int. u = of_int n / 2 ^ 51"
      using g sub by blast
    show ?thesis unfolding rate by (simp only: grid_count [OF ug tg])
  qed
  show "\<exists>ds s. defensive_gateway rx s0 = Inr (ds, s) \<and> length ds = length rx \<and>
            observed_rate (ds ! k) =
              length (filter (\<lambda>u. t - (1 - 1 / 2 ^ 54) < u \<and> u \<le> t)
                       (arrivals ?i (take (Suc k) rx))) \<and>
            (arrivals ?i (take k rx) = [] \<longrightarrow> observed_rate (ds ! k) = 1) \<and>
            ((\<forall>u\<in>set (arrivals ?i rx). \<exists>n::int. u = of_int n / 2 ^ 51) \<longrightarrow>
               observed_rate (ds ! k) =
                 length (filter (\<lambda>u. t - 1 < u \<and> u \<le> t) (arrivals ?i (take (Suc k) rx))))"
    using run len rate first grid by blast
next
  fix tm
  have "(t - u < 1 - 1 / 2 ^ 54) = (t - (1 - 1 / 2 ^ 54) < u)" for u
    by linarith
  then show "record_and_count (arbitration_id m) t tm =
            (Suc (length (filter (\<lambda>u. t - (1 - 1 / 2 ^ 54) < u)
                           (case tm (arbitration_id m) of Some l \<Rightarrow> l | None \<Rightarrow> []))),
             tm(arbitration_id m \<mapsto>
                  filter (\<lambda>u. t - (1 - 1 / 2 ^ 54) < u)
                    (case tm (arbitration_id m) of Some l \<Rightarrow> l | None \<Rightarrow> []) @ [t]))"
    by (simp add: record_and_count_eq)
qed

theorem window_count_is_exact_witness:
  "sorted (arrivals LEGIT_ID
      [(2, \<lparr>arbitration_id = LEGIT_ID, data = [0xC4, 0x09, 90, 70]\<rparr>),
       (5/2, \<lparr>arbitration_id = FLOOD_ID, data = [0xDE, 0xAD, 0xBE, 0xEF]\<rparr>),
       (11/4, \<lparr>arbitration_id = LEGIT_ID, data = [0xC4, 0x09, 90, 70]\<rparr>),
       (3, \<lparr>arbitration_id = LEGIT_ID, data = [0xC4, 0x09, 90, 70]\<rparr>)]) \<and>
   id_timestamps init_state = Map.empty \<and>
   (\<exists>ds s. defensive_gateway
      [(2, \<lparr>arbitration_id = LEGIT_ID, data = [0xC4, 0x09, 90, 70]\<rparr>),
       (5/2, \<lparr>arbitration_id = FLOOD_ID, data = [0xDE, 0xAD, 0xBE, 0xEF]\<rparr>),
       (11/4, \<lparr>arbitration_id = LEGIT_ID, data = [0xC4, 0x09, 90, 70]\<rparr>),
       (3, \<lparr>arbitration_id = LEGIT_ID, data = [0xC4, 0x09, 90, 70]\<rparr>)] init_state = Inr (ds, s) \<and>
      observed_rate (ds ! 3) = 2 \<and>
      observed_rate (ds ! 3) =
        length (filter (\<lambda>u. 3 - 1 < u \<and> u \<le> 3) [2, 11/4, 3 :: real])) \<and>
   record_and_count LEGIT_ID 3 [LEGIT_ID \<mapsto> [2, 11/4]] = (2, [LEGIT_ID \<mapsto> [11/4, 3]])"
proof -
  let ?m = "\<lparr>arbitration_id = LEGIT_ID, data = [0xC4, 0x09, 90, 70]\<rparr>"
  let ?rx = "[(2, ?m), (5/2, \<lparr>arbitration_id = FLOOD_ID, data = [0xDE, 0xAD, 0xBE, 0xEF]\<rparr>),
              (11/4, ?m), (3::real, ?m)]"
  have arr: "arrivals (arbitration_id ?m) ?rx = [2, 11/4, 3]"
    by (simp add: arrivals_def LEGIT_not_FLOOD LEGIT_not_FLOOD [symmetric])
  have a: "sorted (arrivals (arbitration_id ?m) ?rx)"
    unfolding arr by simp
  have b: "id_timestamps init_state = Map.empty" by (simp add: init_state_def)
  have c: "3 < length ?rx" by simp
  have d: "?rx ! 3 = (3, ?m)" by simp
  have e: "length (filter (\<lambda>u. (3::real) - (1 - 1 / 2 ^ 54) < u \<and> u \<le> 3)
                    (arrivals (arbitration_id ?m) (take (Suc 3) ?rx))) = 2"
    by (simp add: arrivals_def LEGIT_not_FLOOD LEGIT_not_FLOOD [symmetric])
  have g: "\<forall>u\<in>set (arrivals (arbitration_id ?m) ?rx). \<exists>n::int. u = of_int n / 2 ^ 51"
  proof -
    have "(2::real) = of_int (2 * 2 ^ 51) / 2 ^ 51" by simp
    moreover have "(11/4::real) = of_int (11 * 2 ^ 49) / 2 ^ 51" by simp
    moreover have "(3::real) = of_int (3 * 2 ^ 51) / 2 ^ 51" by simp
    ultimately show ?thesis unfolding arr by (metis set_ConsD empty_iff empty_set)
  qed
  have f: "length (filter (\<lambda>u. 3 - 1 < u \<and> u \<le> 3) [2, 11/4, 3 :: real]) = 2" by simp
  from window_count_is_exact [OF a b c d] a b g show ?thesis
    unfolding e f by (auto simp: arr)
qed

text \<open>
  Claim C2 as stated counts the arrivals in \<open>(t - 1, t]\<close>. Both \<^verbatim>\<open>2^-60\<close> and \<^verbatim>\<open>1.0\<close> are
  binary64 numbers; for an arrival at \<^verbatim>\<open>2^-60\<close> followed by one at \<^verbatim>\<open>1.0\<close>, the first lies
  in \<open>(1 - 1, 1]\<close>, but its age \<^verbatim>\<open>1.0 - 2^-60\<close> rounds to \<^verbatim>\<open>1.0\<close>: it is purged and the
  count is 1, not 2.
\<close>

theorem window_count_rounding_counterexample:
  "is_binary64 (1 / 2 ^ 60) \<and> is_binary64 1 \<and>
   sorted [1 / 2 ^ 60, 1 :: real] \<and>
   (1::real) - 1 < 1 / 2 ^ 60 \<and> (1::real) / 2 ^ 60 \<le> 1 \<and>
   float_sub 1 (1 / 2 ^ 60) = Finite 1 \<and>
   record_and_count LEGIT_ID 1 [LEGIT_ID \<mapsto> [1 / 2 ^ 60]] = (1, [LEGIT_ID \<mapsto> [1]]) \<and>
   map_sum id (map observed_rate \<circ> fst)
     (defensive_gateway
        [(1 / 2 ^ 60, \<lparr>arbitration_id = LEGIT_ID, data = [0xC4, 0x09, 90, 70]\<rparr>),
         (1, \<lparr>arbitration_id = LEGIT_ID, data = [0xC4, 0x09, 90, 70]\<rparr>)] init_state)
     = Inr [1, 1]"
proof -
  let ?m = "\<lparr>arbitration_id = LEGIT_ID, data = [0xC4, 0x09, 90, 70]\<rparr>"
  have sub: "float_sub 1 (1 / 2 ^ 60) = Finite 1"
    by (rule float_sub_one_tiny)
  have rc: "record_and_count LEGIT_ID 1 [LEGIT_ID \<mapsto> [1 / 2 ^ 60]] = (1, [LEGIT_ID \<mapsto> [1]])"
    by (simp add: record_and_count_eq)
  let ?s1 = "init_state\<lparr>id_timestamps :=
               snd (record_and_count (arbitration_id ?m) (1 / 2 ^ 60) (id_timestamps init_state))\<rparr>"
  let ?s2 = "?s1\<lparr>id_timestamps :=
               snd (record_and_count (arbitration_id ?m) 1 (id_timestamps ?s1))\<rparr>"
  obtain d1 where b1: "gateway_body (1 / 2 ^ 60) ?m init_state = Inr (d1, ?s1)"
      and r1: "observed_rate d1 =
                 fst (record_and_count (arbitration_id ?m) (1 / 2 ^ 60) (id_timestamps init_state))"
    using body_total [of "1 / 2 ^ 60" ?m init_state] by blast
  obtain d2 where b2: "gateway_body 1 ?m ?s1 = Inr (d2, ?s2)"
      and r2: "observed_rate d2 = fst (record_and_count (arbitration_id ?m) 1 (id_timestamps ?s1))"
    using body_total [of 1 ?m ?s1] by blast
  have "defensive_gateway [(1 / 2 ^ 60, ?m), (1, ?m)] init_state = Inr ([d1, d2], ?s2)"
    by (simp only: defensive_gateway.simps b1 b2 sum.case prod.case)
  then have run: "map_sum id (map observed_rate \<circ> fst)
     (defensive_gateway [(1 / 2 ^ 60, ?m), (1, ?m)] init_state) = Inr [1, 1]"
    by (simp add: r1 r2 record_and_count_eq init_state_def)
  show ?thesis using sub rc run is_binary64_tiny is_binary64_one by simp
qed

end
